theory Spec2Isabelle
  imports Complex_Main "HOL-Library.AList"
begin

section \<open>JavaScript values\<close>

text \<open>
  Strings of the program are JavaScript strings, sequences of UTF-16 code units. They are
  modelled as \<open>string\<close>: every \<open>char\<close> is one code unit in the range 0..255, so
  \<open>length\<close> is the \<open>.length\<close> of the source and \<open>take\<close>/\<open>drop\<close> are its
  \<open>substring\<close>. Code units above 255 are outside the model.

  A number is a double. Its value is kept exactly (\<open>Fin\<close> of a rational, the two
  infinities, NaN); which rationals are doubles is not constrained.
\<close>

datatype jsnum = Fin rat | PosInf | NegInf | NaN

datatype jsval =
    Undefined
  | Null
  | Bool bool
  | Num jsnum
  | Str string
  | Arr "jsval list"
  | Obj "(string \<times> jsval) list"

text \<open>\<open>!v\<close> is \<open>\<not> truthy v\<close>: the falsy values are undefined, null, false, 0, NaN and ''''.\<close>

fun truthy :: "jsval \<Rightarrow> bool" where
  "truthy Undefined = False"
| "truthy Null = False"
| "truthy (Bool b) = b"
| "truthy (Num (Fin q)) = (q \<noteq> 0)"
| "truthy (Num NaN) = False"
| "truthy (Num _) = True"
| "truthy (Str s) = (s \<noteq> [])"
| "truthy (Arr _) = True"
| "truthy (Obj _) = True"

text \<open>\<open>a || b\<close> on values.\<close>

definition js_or :: "jsval \<Rightarrow> jsval \<Rightarrow> jsval" where
  "js_or a b = (if truthy a then a else b)"

datatype js_error = TypeError | Error string

text \<open>
  \<open>request.method\<close>, \<open>request.id\<close>, \<open>request.params\<close>: reading a property of null or
  undefined throws a TypeError; an object gives its own member or undefined; every other
  value (number, string, boolean, array) has no property of these three names.
\<close>

fun member_of :: "jsval \<Rightarrow> string \<Rightarrow> js_error + jsval" where
  "member_of Undefined k = Inl TypeError"
| "member_of Null k = Inl TypeError"
| "member_of (Obj kvs) k = Inr (case map_of kvs k of None \<Rightarrow> Undefined | Some v \<Rightarrow> v)"
| "member_of _ k = Inr Undefined"

section \<open>Rate limiter (main.ts, checkRateLimit)\<close>

record rate_record =
  count :: int
  resetTime :: int

type_synonym request_counts = "string \<rightharpoonup> rate_record"

text \<open>
  \<open>checkRateLimit rateLimitPerMinute now requestCounts clientIp\<close>: \<open>now\<close> is the value
  \<open>Date.now()\<close> returned in this call. The result is the returned boolean and the map
  after the call (\<open>limit.count++\<close> mutates the record held by the map).
\<close>

definition checkRateLimit ::
  "int \<Rightarrow> int \<Rightarrow> request_counts \<Rightarrow> string \<Rightarrow> bool \<times> request_counts" where
  "checkRateLimit rateLimitPerMinute now requestCounts clientIp =
     (case requestCounts clientIp of
        None \<Rightarrow>
          (True, requestCounts(clientIp \<mapsto> \<lparr>count = 1, resetTime = now + 60000\<rparr>))
      | Some limit \<Rightarrow>
          if now > resetTime limit then
            (True, requestCounts(clientIp \<mapsto> \<lparr>count = 1, resetTime = now + 60000\<rparr>))
          else if count limit \<ge> rateLimitPerMinute then (False, requestCounts)
          else (True, requestCounts(clientIp \<mapsto> limit\<lparr>count := count limit + 1\<rparr>)))"

text \<open>
  A client issuing requests one after the other, at the given clock readings: the list
  of answers of \<open>checkRateLimit\<close> and the map after the last one.
\<close>

fun serve :: "int \<Rightarrow> request_counts \<Rightarrow> string \<Rightarrow> int list \<Rightarrow> bool list \<times> request_counts" where
  "serve mx rc c [] = ([], rc)"
| "serve mx rc c (t # ts) =
     (case checkRateLimit mx t rc c of
        (ok, rc') \<Rightarrow> (case serve mx rc' c ts of (oks, rc'') \<Rightarrow> (ok # oks, rc'')))"

section \<open>Gateway (main.ts, handleRequest)\<close>

record http_request =
  req_method :: string
  req_url :: string
  x_api_key :: "string option"
  remoteAddress :: "string option"
  body_json :: "jsval option"

text \<open>
  \<open>x_api_key\<close> is \<open>req.headers["x-api-key"]\<close> (\<open>None\<close> when the header is absent),
  \<open>remoteAddress\<close> is \<open>req.socket.remoteAddress\<close>, and \<open>body_json\<close> is
  \<open>JSON.parse(await this.readBody(req))\<close>, \<open>None\<close> when reading or parsing throws.
\<close>

record http_response =
  status :: nat
  headers :: "(string \<times> string) list"
  payload :: "jsval option"

text \<open>
  \<open>payload\<close> is the value handed to \<open>JSON.stringify\<close> for \<open>res.end\<close>; \<open>None\<close> is
  \<open>res.end()\<close>, a response with no body.
\<close>

record 'w server =
  apiKey :: string
  rateLimitPerMinute :: int
  requestCounts :: request_counts
  manifest_version :: string
  vault_name :: string
  world :: 'w

text \<open>
  \<open>world\<close> is everything \<open>executeMethod\<close> can read and change (the vault, the query
  plugin). \<open>executeMethod\<close> is a parameter \<open>exec\<close> of the gateway: given the method,
  the parameters and the world it either throws an error with a message (\<open>Inl\<close>) or
  returns a result (\<open>Inr\<close>), and leaves a new world.
\<close>

type_synonym 'w handler = "jsval \<Rightarrow> jsval \<Rightarrow> 'w \<Rightarrow> (string + jsval) \<times> 'w"

definition cors_headers :: "(string \<times> string) list" where
  "cors_headers =
     [(''Content-Type'', ''application/json''),
      (''Access-Control-Allow-Origin'', ''*''),
      (''Access-Control-Allow-Methods'', ''POST, OPTIONS''),
      (''Access-Control-Allow-Headers'', ''Content-Type, X-API-Key'')]"

definition respond :: "nat \<Rightarrow> jsval option \<Rightarrow> http_response" where
  "respond code b = \<lparr>status = code, headers = cors_headers, payload = b\<rparr>"

definition rpc_error :: "int \<Rightarrow> string \<Rightarrow> jsval \<Rightarrow> jsval" where
  "rpc_error code msg ident =
     Obj [(''jsonrpc'', Str ''2.0''),
          (''error'', Obj [(''code'', Num (Fin (of_int code))), (''message'', Str msg)]),
          (''id'', ident)]"

definition rpc_result :: "jsval \<Rightarrow> jsval \<Rightarrow> jsval" where
  "rpc_result r ident = Obj [(''jsonrpc'', Str ''2.0''), (''result'', r), (''id'', ident)]"

definition parse_error_response :: http_response where
  "parse_error_response = respond 400 (Some (rpc_error (- 32700) ''Parse error'' Null))"

text \<open>
  The body of the outer \<open>try\<close> once the body has been parsed to \<open>request\<close>. A
  \<open>TypeError\<close> from reading a property of \<open>null\<close> lands in the outer \<open>catch\<close>.
\<close>

definition handle_rpc :: "'w handler \<Rightarrow> 'w \<Rightarrow> jsval \<Rightarrow> http_response \<times> 'w" where
  "handle_rpc exec w request =
     (case member_of request ''method'' of
        Inl _ \<Rightarrow> (parse_error_response, w)
      | Inr m \<Rightarrow>
          (case member_of request ''id'' of
             Inl _ \<Rightarrow> (parse_error_response, w)
           | Inr ident \<Rightarrow>
               if \<not> truthy m then
                 (respond 400
                    (Some (rpc_error (- 32600) ''Invalid request - missing method''
                       (js_or ident Null))), w)
               else
                 (case member_of request ''params'' of
                    Inl _ \<Rightarrow> (parse_error_response, w)
                  | Inr ps \<Rightarrow>
                      (case exec m (js_or ps (Obj [])) w of
                         (Inr result, w') \<Rightarrow>
                           if ident = Undefined then (respond 200 None, w')
                           else (respond 200 (Some (rpc_result result ident)), w')
                       | (Inl msg, w') \<Rightarrow>
                           if ident \<noteq> Undefined then
                             (respond 200
                                (Some (rpc_error (- 32603)
                                   (if msg \<noteq> [] then msg else ''Internal error'') ident)), w')
                           else (respond 200 None, w')))))"

text \<open>\<open>req.socket.remoteAddress || "unknown"\<close>.\<close>

definition clientIp :: "http_request \<Rightarrow> string" where
  "clientIp req =
     (case remoteAddress req of
        None \<Rightarrow> ''unknown''
      | Some a \<Rightarrow> if a \<noteq> [] then a else ''unknown'')"

text \<open>
  \<open>handleRequest exec now stamp srv req\<close>: \<open>now\<close> is \<open>Date.now()\<close> as read by
  \<open>checkRateLimit\<close>, \<open>stamp\<close> is \<open>new Date().toISOString()\<close> as read by the health route.
\<close>

definition handleRequest ::
  "'w handler \<Rightarrow> int \<Rightarrow> string \<Rightarrow> 'w server \<Rightarrow> http_request \<Rightarrow> http_response \<times> 'w server" where
  "handleRequest exec now stamp srv req =
     (if req_method req = ''OPTIONS'' then (respond 200 None, srv)
      else if x_api_key req \<noteq> Some (apiKey srv) then
        (respond 401 (Some (Obj [(''error'', Str ''Unauthorized'')])), srv)
      else
        case checkRateLimit (rateLimitPerMinute srv) now (requestCounts srv) (clientIp req) of
             (False, rc) \<Rightarrow>
               (respond 429 (Some (Obj [(''error'', Str ''Rate limit exceeded'')])),
                srv\<lparr>requestCounts := rc\<rparr>)
           | (True, rc) \<Rightarrow>
               let srv1 = srv\<lparr>requestCounts := rc\<rparr> in
               if req_url req = ''/health'' then
                 (respond 200
                    (Some (Obj [(''status'', Str ''ok''),
                                (''server'', Str ''obsidian-http-mcp-plugin''),
                                (''version'', Str (manifest_version srv1)),
                                (''vault'', Str (vault_name srv1)),
                                (''timestamp'', Str stamp)])), srv1)
               else if req_method req \<noteq> ''POST'' \<or> req_url req \<noteq> ''/rpc'' then
                 (respond 404 (Some (Obj [(''error'', Str ''Not found'')])), srv1)
               else
                 (case body_json req of
                    None \<Rightarrow> (parse_error_response, srv1)
                  | Some request \<Rightarrow>
                      (case handle_rpc exec (world srv1) request of
                         (resp, w') \<Rightarrow> (resp, srv1\<lparr>world := w'\<rparr>))))"

text \<open>A server with the default limit of 60 and no client seen yet, for the examples.\<close>

definition demo_server :: "unit server" where
  "demo_server = \<lparr>apiKey = ''secret'', rateLimitPerMinute = 60, requestCounts = Map.empty,
     manifest_version = ''1.0.0'', vault_name = ''notes'', world = ()\<rparr>"

section \<open>Search (main.ts, simpleSearch)\<close>

text \<open>
  \<open>toLowerCase\<close> on code units below 256: the letters A-Z and the Latin-1 capitals
  0xC0-0xDE (without the multiplication sign 0xD7) move up by 32, everything else stays.
  On such strings \<open>toLowerCase\<close> keeps the length.
\<close>

definition toLowerCase_unit :: "char \<Rightarrow> char" where
  "toLowerCase_unit c =
     (let n = (of_char c :: nat)
      in if (65 \<le> n \<and> n \<le> 90) \<or> (192 \<le> n \<and> n \<le> 222 \<and> n \<noteq> 215)
         then char_of (n + 32) else c)"

definition toLowerCase :: "string \<Rightarrow> string" where
  "toLowerCase s = map toLowerCase_unit s"

text \<open>The least \<open>k\<close> at which \<open>q\<close> occurs in \<open>s\<close>.\<close>

fun first_occurrence :: "string \<Rightarrow> string \<Rightarrow> nat option" where
  "first_occurrence q [] = (if q = [] then Some 0 else None)"
| "first_occurrence q (c # cs) =
     (if take (length q) (c # cs) = q then Some 0
      else map_option Suc (first_occurrence q cs))"

text \<open>
  \<open>s.indexOf(q, position)\<close>: the position is clamped to \<open>0..s.length\<close>; the result is
  the first index from there at which \<open>q\<close> occurs, \<open>-1\<close> when there is none. For the
  empty \<open>q\<close> it is the clamped position itself.
\<close>

definition indexOf :: "string \<Rightarrow> string \<Rightarrow> int \<Rightarrow> int" where
  "indexOf s q position =
     (let start = nat (min (max position 0) (int (length s)))
      in case first_occurrence q (drop start s) of
           None \<Rightarrow> - 1
         | Some k \<Rightarrow> int (start + k))"

text \<open>
  \<open>s.substring(a, b)\<close>: both arguments are clamped to \<open>0..s.length\<close> and swapped when
  the first is the larger.
\<close>

definition substring :: "string \<Rightarrow> int \<Rightarrow> int \<Rightarrow> string" where
  "substring s a b =
     (let a' = nat (min (max a 0) (int (length s)));
          b' = nat (min (max b 0) (int (length s)));
          lo = min a' b'; hi = max a' b'
      in take (hi - lo) (drop lo s))"

text \<open>One entry of \<open>results\<close>: the fields \<open>file\<close>, \<open>match\<close> and \<open>position\<close>.\<close>

record search_result =
  sr_file :: string
  sr_match :: string
  sr_position :: int

text \<open>
  The \<open>while (index !== -1)\<close> loop of \<open>simpleSearch\<close> on one file. It need not
  terminate, so it is a partial function: \<open>None\<close> is a loop that never ends.
\<close>

partial_function (option) search_loop ::
  "string \<Rightarrow> string \<Rightarrow> string \<Rightarrow> string \<Rightarrow> string \<Rightarrow> int \<Rightarrow> int \<Rightarrow>
   search_result list \<Rightarrow> search_result list option" where
  "search_loop path content lowerContent query lowerQuery contextLength index results =
     (if index \<noteq> - 1 then
        (let start = max 0 (index - contextLength);
             end' = min (int (length content)) (index + int (length query) + contextLength);
             ctx = substring content start end'
         in search_loop path content lowerContent query lowerQuery contextLength
              (indexOf lowerContent lowerQuery (index + 1))
              (results @ [\<lparr>sr_file = path, sr_match = ctx, sr_position = index\<rparr>]))
      else Some results)"

text \<open>
  The \<open>for (const file of files)\<close> loop: \<open>files\<close> are the markdown files of the vault
  in the order \<open>getMarkdownFiles\<close> gives them, each with the text \<open>vault.read\<close> returns.
\<close>

fun search_files ::
  "(string \<times> string) list \<Rightarrow> string \<Rightarrow> int \<Rightarrow> search_result list \<Rightarrow> search_result list option" where
  "search_files [] query contextLength results = Some results"
| "search_files ((path, content) # files) query contextLength results =
     (let lowerContent = toLowerCase content;
          lowerQuery = toLowerCase query
      in case search_loop path content lowerContent query lowerQuery contextLength
                (indexOf lowerContent lowerQuery 0) results of
           None \<Rightarrow> None
         | Some results' \<Rightarrow> search_files files query contextLength results')"

text \<open>\<open>contextLength\<close> is \<open>None\<close> when the caller leaves it out (the default 100).\<close>

definition simpleSearch ::
  "(string \<times> string) list \<Rightarrow> string \<Rightarrow> int option \<Rightarrow> search_result list option" where
  "simpleSearch files query contextLength =
     search_files files query (case contextLength of None \<Rightarrow> 100 | Some n \<Rightarrow> n) []"

text \<open>
  The indices at which \<open>q\<close> occurs in \<open>s\<close>, in ascending order: the reading of
  "one result per occurrence" that \<open>simpleSearch\<close> is compared with.
\<close>

definition occurs_at :: "string \<Rightarrow> string \<Rightarrow> nat \<Rightarrow> bool" where
  "occurs_at q s k = (take (length q) (drop k s) = q)"

definition occurrences :: "string \<Rightarrow> string \<Rightarrow> nat list" where
  "occurrences q s = filter (occurs_at q s) [0..<Suc (length s)]"

text \<open>The result \<open>simpleSearch\<close> pushes for an occurrence at index \<open>k\<close>.\<close>

definition result_at :: "string \<Rightarrow> string \<Rightarrow> string \<Rightarrow> int \<Rightarrow> nat \<Rightarrow> search_result" where
  "result_at path content query contextLength k =
     \<lparr>sr_file = path,
      sr_match = substring content (max 0 (int k - contextLength))
                   (min (int (length content)) (int k + int (length query) + contextLength)),
      sr_position = int k\<rparr>"

section \<open>Regular expressions of patchContent\<close>

text \<open>
  The three patterns of \<open>patchContent\<close> are sequences of line assertions and of
  quantified one-character classes, so the matcher below covers exactly that shape:
  \<open>^\<close> and \<open>$\<close> under the \<open>m\<close> flag, and a class repeated between a lower and
  an optional upper bound, greedily or lazily. A literal character is a class repeated
  once. Matching is ECMAScript's backtracking: a greedy quantifier first takes as many
  characters as it can and gives them back one at a time, a lazy one starts from its
  lower bound and takes one more at a time, each time asking whether the rest of the
  pattern matches.
\<close>

abbreviation LF :: char where "LF \<equiv> CHR 0x0A"

abbreviation CR :: char where "CR \<equiv> CHR 0x0D"

text \<open>\<open>\s\<close> on code units below 256: tab, LF, VT, FF, CR, space and no-break space.\<close>

definition is_space :: "char \<Rightarrow> bool" where
  "is_space c = (c = CHR 0x09 \<or> c = LF \<or> c = CHR 0x0B \<or> c = CHR 0x0C \<or> c = CR
                 \<or> c = CHR 0x20 \<or> c = CHR 0xA0)"

text \<open>Line terminators below 256: LF and CR.\<close>

definition is_line_terminator :: "char \<Rightarrow> bool" where
  "is_line_terminator c = (c = LF \<or> c = CR)"

datatype cls = Lit char | Space | NotLF

fun in_cls :: "cls \<Rightarrow> char \<Rightarrow> bool" where
  "in_cls (Lit c) x = (x = c)"
| "in_cls Space x = is_space x"
| "in_cls NotLF x = (x \<noteq> LF)"

datatype node = Bol | Eol | Rep cls nat "nat option" bool

text \<open>
  \<open>Rep c lo hi greedy\<close> is the class \<open>c\<close> with the quantifier \<open>{lo,hi}\<close>
  (\<open>hi = None\<close>: no upper bound), greedy or lazy.
\<close>

definition lit :: "string \<Rightarrow> node list" where
  "lit s = map (\<lambda>c. Rep (Lit c) 1 (Some 1) True) s"

primrec first_some :: "('a \<Rightarrow> 'b option) \<Rightarrow> 'a list \<Rightarrow> 'b option" where
  "first_some f [] = None"
| "first_some f (x # xs) = (case f x of Some y \<Rightarrow> Some y | None \<Rightarrow> first_some f xs)"

text \<open>The repetition counts a quantifier tries, in the order it tries them.\<close>

definition candidates :: "cls \<Rightarrow> nat \<Rightarrow> nat option \<Rightarrow> bool \<Rightarrow> string \<Rightarrow> nat list" where
  "candidates c lo hi greedy s =
     (let n = length (takeWhile (in_cls c) s);
          mx = (case hi of None \<Rightarrow> n | Some h \<Rightarrow> min n h);
          ks = [lo..<Suc mx]
      in if greedy then rev ks else ks)"

text \<open>The character before the position reached after \<open>k\<close> more characters of \<open>s\<close>.\<close>

definition prev_after :: "char option \<Rightarrow> string \<Rightarrow> nat \<Rightarrow> char option" where
  "prev_after prev s k = (if k = 0 then prev else Some (s ! (k - 1)))"

text \<open>
  \<open>match_here ns prev s\<close>: the pattern \<open>ns\<close> matched at a position where \<open>s\<close> is the
  rest of the input and \<open>prev\<close> the character before it (\<open>None\<close> at the start of the
  input). The result is the number of characters each node consumed, for the first
  alternative that succeeds in backtracking order.
\<close>

primrec match_here :: "node list \<Rightarrow> char option \<Rightarrow> string \<Rightarrow> nat list option" where
  "match_here [] = (\<lambda>prev s. Some [])"
| "match_here (n # ns) = (\<lambda>prev s.
     case n of
       Bol \<Rightarrow>
         (if (case prev of None \<Rightarrow> True | Some c \<Rightarrow> is_line_terminator c)
          then map_option (Cons 0) (match_here ns prev s) else None)
     | Eol \<Rightarrow>
         (if (case s of [] \<Rightarrow> True | c # _ \<Rightarrow> is_line_terminator c)
          then map_option (Cons 0) (match_here ns prev s) else None)
     | Rep c lo hi greedy \<Rightarrow>
         first_some
           (\<lambda>k. map_option (Cons k) (match_here ns (prev_after prev s k) (drop k s)))
           (candidates c lo hi greedy s))"

text \<open>
  \<open>str.match(re)\<close> for a pattern without the \<open>g\<close> flag: the start positions are tried
  from 0 to the length of the input, and the first that matches wins. \<open>match_from ns
  prev s i\<close> is that loop from position \<open>i\<close>, at which \<open>s\<close> is the rest of the input.
\<close>

fun match_from :: "node list \<Rightarrow> char option \<Rightarrow> string \<Rightarrow> nat \<Rightarrow> (nat \<times> nat list) option" where
  "match_from ns prev [] i = map_option (Pair i) (match_here ns prev [])"
| "match_from ns prev (c # cs) i =
     (case match_here ns prev (c # cs) of
        Some ks \<Rightarrow> Some (i, ks)
      | None \<Rightarrow> match_from ns (Some c) cs (Suc i))"

text \<open>The result is \<open>match.index\<close> and the per-node lengths; \<open>match[0].length\<close> is their sum.\<close>

definition regex_match :: "node list \<Rightarrow> string \<Rightarrow> (nat \<times> nat list) option" where
  "regex_match ns s = match_from ns None s 0"

text \<open>
  The target is pasted into the pattern source unescaped. For a target without a
  character of regular-expression syntax the pasted text is the literal target, and this
  is the part that is modelled. Any other target reads as pattern syntax (or makes the
  \<open>RegExp\<close> constructor throw) and is outside the model.
\<close>

definition regex_syntax_chars :: string where
  "regex_syntax_chars = [CHR 0x5C, CHR ''^'', CHR ''$'', CHR ''.'', CHR ''*'', CHR ''+'', CHR ''?'',
     CHR ''('', CHR '')'', CHR ''['', CHR '']'', CHR ''{'', CHR ''}'', CHR ''|'']"

definition regex_plain :: "string \<Rightarrow> bool" where
  "regex_plain target = list_all (\<lambda>c. c \<notin> set regex_syntax_chars) target"

text \<open>\<open>new RegExp(`^#{1,6}\\s+${target}\\s*$`, "m")\<close>, \<open>None\<close> outside the model.\<close>

definition headingRegex :: "string \<Rightarrow> node list option" where
  "headingRegex target =
     (if regex_plain target
      then Some ([Bol, Rep (Lit (CHR ''#'')) 1 (Some 6) True, Rep Space 1 None True]
                 @ lit target @ [Rep Space 0 None True, Eol])
      else None)"

text \<open>\<open>new RegExp(`^#{1,6}\\s+`, "m")\<close>.\<close>

definition nextHeadingRegex :: "node list" where
  "nextHeadingRegex = [Bol, Rep (Lit (CHR ''#'')) 1 (Some 6) True, Rep Space 1 None True]"

text \<open>
  \<open>new RegExp(`([^\n]*?)\\s*\\^${target}\\s*$`, "m")\<close>; the group is the first node.
\<close>

definition blockRegex :: "string \<Rightarrow> node list option" where
  "blockRegex target =
     (if regex_plain target
      then Some ([Rep NotLF 0 None False, Rep Space 0 None True, Rep (Lit (CHR ''^'')) 1 (Some 1) True]
                 @ lit target @ [Rep Space 0 None True, Eol])
      else None)"

section \<open>What a match is\<close>

text \<open>
  \<open>matches ns prev s ks\<close>: the pattern \<open>ns\<close> can match at this position with node
  \<open>i\<close> consuming \<open>ks ! i\<close> characters. This says which splits of the input are
  matches, without an order among them; \<open>match_here\<close> is compared with it.
\<close>

fun matches :: "node list \<Rightarrow> char option \<Rightarrow> string \<Rightarrow> nat list \<Rightarrow> bool" where
  "matches [] prev s ks = (ks = [])"
| "matches (n # ns) prev s [] = False"
| "matches (Bol # ns) prev s (k # ks) =
     (k = 0 \<and> (case prev of None \<Rightarrow> True | Some c \<Rightarrow> is_line_terminator c) \<and> matches ns prev s ks)"
| "matches (Eol # ns) prev s (k # ks) =
     (k = 0 \<and> (case s of [] \<Rightarrow> True | c # _ \<Rightarrow> is_line_terminator c) \<and> matches ns prev s ks)"
| "matches (Rep c lo hi greedy # ns) prev s (k # ks) =
     (lo \<le> k \<and> (case hi of None \<Rightarrow> True | Some h \<Rightarrow> k \<le> h) \<and> k \<le> length s
      \<and> list_all (in_cls c) (take k s)
      \<and> matches ns (prev_after prev s k) (drop k s) ks)"


section \<open>Heading lines and block lines of a document\<close>

text \<open>
  A document holds a heading line for a target when it splits into a part that is empty
  or ends a line, one to six hash signs, white space, the target, white space, and a
  rest that is empty or starts with a line terminator. It holds a block reference for a
  target when it splits into any text, a stretch without line feed, white space, the
  caret and the target, white space, and such a rest. (White space includes line
  breaks, as \<open>\s\<close> does.)
\<close>

definition heading_occurs :: "string \<Rightarrow> string \<Rightarrow> bool" where
  "heading_occurs t D =
     (\<exists>pre h w1 w2 post.
        D = pre @ replicate h (CHR ''#'') @ w1 @ t @ w2 @ post
        \<and> (case rev pre of [] \<Rightarrow> True | c # _ \<Rightarrow> is_line_terminator c)
        \<and> 1 \<le> h \<and> h \<le> 6 \<and> w1 \<noteq> [] \<and> list_all is_space w1 \<and> list_all is_space w2
        \<and> (case post of [] \<Rightarrow> True | c # _ \<Rightarrow> is_line_terminator c))"




section \<open>Patch engine (patchContent)\<close>



text \<open>\<open>s.substring(a)\<close>.\<close>

definition substring_from :: "string \<Rightarrow> int \<Rightarrow> string" where
  "substring_from s a = substring s a (int (length s))"

text \<open>
  The section of the first heading matched by \<open>re\<close>: the index after the match
  (\<open>headingIndex + match[0].length\<close>) and \<open>sectionEnd\<close>, the start of the first match of
  \<open>nextHeadingRegex\<close> in the rest of the text, or the end of the text.
\<close>

definition heading_section :: "node list \<Rightarrow> string \<Rightarrow> (nat \<times> nat) option" where
  "heading_section re fileContent =
     (case regex_match re fileContent of
        None \<Rightarrow> None
      | Some (headingIndex, ks) \<Rightarrow>
          let bodyStart = headingIndex + sum_list ks;
              restOfContent = substring_from fileContent (int bodyStart);
              sectionEnd = (case regex_match nextHeadingRegex restOfContent of
                              Some (nextIndex, _) \<Rightarrow> bodyStart + nextIndex
                            | None \<Rightarrow> length fileContent)
          in Some (bodyStart, sectionEnd))"




section \<open>Frontmatter values (the copy of the plugin in mcp-http-bridge.js)\<close>



text \<open>
  \<open>existing + parsedValue\<close> with a string on the left appends the string conversion of
  the right operand: an array is its elements joined by commas (null and undefined as
  the empty string), an object with the default \<open>toString\<close> is "[object Object]".
\<close>

fun js_to_string :: "(jsnum \<Rightarrow> string) \<Rightarrow> jsval \<Rightarrow> string"
  and js_join :: "(jsnum \<Rightarrow> string) \<Rightarrow> jsval list \<Rightarrow> string" where
  "js_to_string f Undefined = ''undefined''"
| "js_to_string f Null = ''null''"
| "js_to_string f (Bool b) = (if b then ''true'' else ''false'')"
| "js_to_string f (Num n) = f n"
| "js_to_string f (Str s) = s"
| "js_to_string f (Arr xs) = js_join f xs"
| "js_to_string f (Obj kvs) = ''[object Object]''"
| "js_join f [] = []"
| "js_join f (x # xs) =
     (if x = Undefined \<or> x = Null then [] else js_to_string f x)
     @ (if xs = [] then [] else '','' @ js_join f xs)"


definition get_member :: "(string \<times> jsval) list \<Rightarrow> string \<Rightarrow> jsval" where
  "get_member obj key = (case map_of obj key of None \<Rightarrow> Undefined | Some v \<Rightarrow> v)"






section \<open>patchContent\<close>

text \<open>The members of \<open>params\<close> that \<open>patchContent\<close> reads, each a string.\<close>

record patch_params =
  filepath :: string
  operation :: string
  target_type :: string
  target :: string
  content :: string



section \<open>Reading a key path\<close>

text \<open>
  The member a key path addresses, undefined when the path leaves the mappings, and
  the key paths the model follows: no key that \<open>Object.prototype\<close> defines and no
  array on the way. These two are used to state what the three mutators do.
\<close>

fun get_path :: "(string \<times> jsval) list \<Rightarrow> string list \<Rightarrow> jsval" where
  "get_path obj [] = Undefined"
| "get_path obj [key] = get_member obj key"
| "get_path obj (key # keys) =
     (case get_member obj key of Obj sub \<Rightarrow> get_path sub keys | _ \<Rightarrow> Undefined)"




section \<open>Examples\<close>

text \<open>
  A note with two headings, a note with one, and the vaults that hold them.
  \<open>word_externals\<close> is the platform as far as the examples use it, on words of
  ASCII letters: \<open>JSON.parse\<close> reads true, false and null and throws on every other
  word, \<open>Number\<close> reads Infinity and gives NaN on every other word. The examples apply
  it to such words only, and to no file with metadata.
\<close>

definition tasks_note :: string where
  "tasks_note = ''# Tasks'' @ [LF] @ ''old'' @ [LF] @ ''# Done'' @ [LF]"





section \<open>Properties of the rate limiter\<close>

lemma checkRateLimit_fresh:
  "rc c = None \<Longrightarrow>
   checkRateLimit mx t rc c =
     (True, rc(c \<mapsto> \<lparr>count = 1, resetTime = t + 60000\<rparr>))"
  by (simp add: checkRateLimit_def)

lemma checkRateLimit_expired:
  "rc c = Some r \<Longrightarrow> resetTime r < t \<Longrightarrow>
   checkRateLimit mx t rc c =
     (True, rc(c \<mapsto> \<lparr>count = 1, resetTime = t + 60000\<rparr>))"
  by (simp add: checkRateLimit_def)

lemma checkRateLimit_below:
  "rc c = Some r \<Longrightarrow> t \<le> resetTime r \<Longrightarrow> count r < mx \<Longrightarrow>
   checkRateLimit mx t rc c =
     (True, rc(c \<mapsto> r\<lparr>count := count r + 1\<rparr>))"
  by (simp add: checkRateLimit_def)

lemma checkRateLimit_full:
  "rc c = Some r \<Longrightarrow> t \<le> resetTime r \<Longrightarrow> mx \<le> count r \<Longrightarrow>
   checkRateLimit mx t rc c = (False, rc)"
  by (simp add: checkRateLimit_def)

lemma upt_map_shift:
  "map f [0..<Suc n] = f 0 # map (\<lambda>j. f (Suc j)) [0..<n]"
proof -
  have "[0..<Suc n] = 0 # map Suc [0..<n]"
    by (simp add: upt_conv_Cons map_Suc_upt del: upt_Suc)
  then show ?thesis by (simp add: comp_def del: upt_Suc)
qed

lemma first_max_then_denied:
  "map (\<lambda>j. int j < mx) [0..<Suc (nat mx)] = replicate (nat mx) True @ [False]"
proof -
  have "map (\<lambda>j. int j < mx) [0..<nat mx] = replicate (nat mx) True"
    by (auto simp: list_eq_iff_nth_eq)
  then show ?thesis by simp
qed

lemma serve_in_window:
  "rc c = Some r \<Longrightarrow> \<forall>u\<in>set ts. u \<le> resetTime r \<Longrightarrow>
   fst (serve mx rc c ts) = map (\<lambda>j. count r + int j < mx) [0..<length ts]"
proof (induction ts arbitrary: rc r)
  case Nil
  then show ?case by simp
next
  case (Cons t ts)
  show ?case
  proof (cases "count r < mx")
    case True
    let ?r = "r\<lparr>count := count r + 1\<rparr>"
    let ?rc = "rc(c \<mapsto> ?r)"
    have step: "checkRateLimit mx t rc c = (True, ?rc)"
      using Cons.prems True by (simp add: checkRateLimit_below)
    have "fst (serve mx ?rc c ts) = map (\<lambda>j. count ?r + int j < mx) [0..<length ts]"
      using Cons.prems by (intro Cons.IH) auto
    moreover have "map (\<lambda>j. count r + int j < mx) [0..<length (t # ts)]
        = True # map (\<lambda>j. count ?r + int j < mx) [0..<length ts]"
      using True by (auto simp add: upt_map_shift simp del: upt_Suc)
    ultimately show ?thesis
      using step by (simp add: split_beta del: upt_Suc)
  next
    case False
    have step: "checkRateLimit mx t rc c = (False, rc)"
      using Cons.prems False by (simp add: checkRateLimit_full)
    have "fst (serve mx rc c ts) = map (\<lambda>j. count r + int j < mx) [0..<length ts]"
      using Cons.prems by (intro Cons.IH) auto
    moreover have "map (\<lambda>j. count r + int j < mx) [0..<length (t # ts)]
        = False # map (\<lambda>j. count r + int j < mx) [0..<length ts]"
      using False by (simp add: upt_map_shift del: upt_Suc)
    ultimately show ?thesis
      using step by (simp add: split_beta del: upt_Suc)
  qed
qed

lemma serve_fresh:
  assumes "rc c = None \<or> (\<exists>r. rc c = Some r \<and> resetTime r < t)"
    and "\<forall>u\<in>set ts. u \<le> t + 60000" and "1 \<le> mx"
  shows "fst (serve mx rc c (t # ts)) = map (\<lambda>j. int j < mx) [0..<Suc (length ts)]"
proof -
  let ?r = "\<lparr>count = 1, resetTime = t + 60000\<rparr>"
  have step: "checkRateLimit mx t rc c = (True, rc(c \<mapsto> ?r))"
    using assms(1) checkRateLimit_fresh checkRateLimit_expired by blast
  have "fst (serve mx (rc(c \<mapsto> ?r)) c ts) = map (\<lambda>j. count ?r + int j < mx) [0..<length ts]"
    using assms(2) by (intro serve_in_window) auto
  moreover have "map (\<lambda>j. int j < mx) [0..<Suc (length ts)]
       = True # map (\<lambda>j. count ?r + int j < mx) [0..<length ts]"
    using assms(3) by (auto simp add: upt_map_shift simp del: upt_Suc)
  ultimately show ?thesis using step by (simp add: split_beta del: upt_Suc)
qed

text \<open>
  Claim C4. The first request of a client, and the first one after its window has
  elapsed, is allowed and leaves count 1 and the window end at now + 60000. Inside the
  window a request is allowed and counted while the count is below the maximum, and
  denied with the record untouched once it has reached it. So when a client with no live
  window sends max + 1 requests inside one window (max at least 1, as the settings tab
  enforces), the first max are allowed and the last is denied.
\<close>

theorem checkRateLimit_fixed_window:
  "(rc c = None \<or> (\<exists>r. rc c = Some r \<and> resetTime r < t) \<longrightarrow>
      checkRateLimit mx t rc c = (True, rc(c \<mapsto> \<lparr>count = 1, resetTime = t + 60000\<rparr>)))
   \<and> (rc c = Some r \<and> t \<le> resetTime r \<and> count r < mx \<longrightarrow>
      checkRateLimit mx t rc c = (True, rc(c \<mapsto> r\<lparr>count := count r + 1\<rparr>)))
   \<and> (rc c = Some r \<and> t \<le> resetTime r \<and> mx \<le> count r \<longrightarrow>
      checkRateLimit mx t rc c = (False, rc))
   \<and> (1 \<le> mx \<and> (rc c = None \<or> (\<exists>r. rc c = Some r \<and> resetTime r < t))
        \<and> (\<forall>u\<in>set ts. u \<le> t + 60000) \<longrightarrow>
      fst (serve mx rc c (t # ts)) = map (\<lambda>j. int j < mx) [0..<Suc (length ts)]
      \<and> (length ts = nat mx \<longrightarrow>
           fst (serve mx rc c (t # ts)) = replicate (nat mx) True @ [False]))"
proof (intro conjI impI)
  assume "rc c = None \<or> (\<exists>r. rc c = Some r \<and> resetTime r < t)"
  then show "checkRateLimit mx t rc c = (True, rc(c \<mapsto> \<lparr>count = 1, resetTime = t + 60000\<rparr>))"
    using checkRateLimit_fresh checkRateLimit_expired by blast
next
  assume "rc c = Some r \<and> t \<le> resetTime r \<and> count r < mx"
  then show "checkRateLimit mx t rc c = (True, rc(c \<mapsto> r\<lparr>count := count r + 1\<rparr>))"
    by (simp add: checkRateLimit_below)
next
  assume "rc c = Some r \<and> t \<le> resetTime r \<and> mx \<le> count r"
  then show "checkRateLimit mx t rc c = (False, rc)"
    by (simp add: checkRateLimit_full)
next
  assume a: "1 \<le> mx \<and> (rc c = None \<or> (\<exists>r. rc c = Some r \<and> resetTime r < t))
        \<and> (\<forall>u\<in>set ts. u \<le> t + 60000)"
  then show run: "fst (serve mx rc c (t # ts)) = map (\<lambda>j. int j < mx) [0..<Suc (length ts)]"
    by (intro serve_fresh) auto
  assume "length ts = nat mx"
  with run show "fst (serve mx rc c (t # ts)) = replicate (nat mx) True @ [False]"
    by (simp only: first_max_then_denied)
qed

theorem checkRateLimit_fixed_window_witness:
  "checkRateLimit 2 1000 Map.empty ''10.0.0.7''
     = (True, [''10.0.0.7'' \<mapsto> \<lparr>count = 1, resetTime = 61000\<rparr>])
   \<and> checkRateLimit 2 1500 [''10.0.0.7'' \<mapsto> \<lparr>count = 1, resetTime = 61000\<rparr>] ''10.0.0.7''
     = (True, [''10.0.0.7'' \<mapsto> \<lparr>count = 2, resetTime = 61000\<rparr>])
   \<and> checkRateLimit 2 2000 [''10.0.0.7'' \<mapsto> \<lparr>count = 2, resetTime = 61000\<rparr>] ''10.0.0.7''
     = (False, [''10.0.0.7'' \<mapsto> \<lparr>count = 2, resetTime = 61000\<rparr>])
   \<and> checkRateLimit 2 61001 [''10.0.0.7'' \<mapsto> \<lparr>count = 2, resetTime = 61000\<rparr>] ''10.0.0.7''
     = (True, [''10.0.0.7'' \<mapsto> \<lparr>count = 1, resetTime = 121001\<rparr>])
   \<and> fst (serve 2 Map.empty ''10.0.0.7'' [1000, 1500, 2000]) = [True, True, False]"
  using checkRateLimit_fixed_window [where rc = Map.empty and c = "''10.0.0.7''" and t = 1000
      and mx = 2 and ts = "[1500, 2000]"]
    checkRateLimit_fixed_window [where rc = "[''10.0.0.7'' \<mapsto> \<lparr>count = 1, resetTime = 61000\<rparr>]"
      and c = "''10.0.0.7''" and t = 1500 and mx = 2 and r = "\<lparr>count = 1, resetTime = 61000\<rparr>"]
    checkRateLimit_fixed_window [where rc = "[''10.0.0.7'' \<mapsto> \<lparr>count = 2, resetTime = 61000\<rparr>]"
      and c = "''10.0.0.7''" and t = 2000 and mx = 2 and r = "\<lparr>count = 2, resetTime = 61000\<rparr>"]
    checkRateLimit_fixed_window [where rc = "[''10.0.0.7'' \<mapsto> \<lparr>count = 2, resetTime = 61000\<rparr>]"
      and c = "''10.0.0.7''" and t = 61001 and mx = 2]
  by (simp add: numeral_2_eq_2)

section \<open>Properties of the gateway\<close>

lemma checkRateLimit_denied_keeps:
  "\<not> fst (checkRateLimit mx t rc c) \<Longrightarrow> snd (checkRateLimit mx t rc c) = rc"
  by (auto simp: checkRateLimit_def split: option.splits if_splits)

lemma checkRateLimit_allowed_counts:
  "fst (checkRateLimit mx t rc c) \<Longrightarrow>
   snd (checkRateLimit mx t rc c) c =
     Some (case rc c of
             None \<Rightarrow> \<lparr>count = 1, resetTime = t + 60000\<rparr>
           | Some r \<Rightarrow> if resetTime r < t then \<lparr>count = 1, resetTime = t + 60000\<rparr>
                      else r\<lparr>count := count r + 1\<rparr>)"
  by (auto simp: checkRateLimit_def split: option.splits if_splits)

lemma handleRequest_unauthorized:
  "req_method req \<noteq> ''OPTIONS'' \<Longrightarrow> x_api_key req \<noteq> Some (apiKey srv) \<Longrightarrow>
   handleRequest exec now stamp srv req =
     (respond 401 (Some (Obj [(''error'', Str ''Unauthorized'')])), srv)"
  by (simp add: handleRequest_def)

lemma handleRequest_counts:
  "req_method req \<noteq> ''OPTIONS'' \<Longrightarrow> x_api_key req = Some (apiKey srv) \<Longrightarrow>
   requestCounts (snd (handleRequest exec now stamp srv req)) =
     snd (checkRateLimit (rateLimitPerMinute srv) now (requestCounts srv) (clientIp req))"
  by (simp add: handleRequest_def Let_def split: prod.splits bool.splits option.splits)

lemma handleRequest_denied:
  "req_method req \<noteq> ''OPTIONS'' \<Longrightarrow> x_api_key req = Some (apiKey srv) \<Longrightarrow>
   \<not> fst (checkRateLimit (rateLimitPerMinute srv) now (requestCounts srv) (clientIp req)) \<Longrightarrow>
   handleRequest exec now stamp srv req =
     (respond 429 (Some (Obj [(''error'', Str ''Rate limit exceeded'')])), srv)"
  using checkRateLimit_denied_keeps [of "rateLimitPerMinute srv" now "requestCounts srv" "clientIp req"]
  by (auto simp: handleRequest_def split: prod.splits bool.splits)

text \<open>
  Claim C10. A request that is not a pre-flight (method other than OPTIONS), whatever its
  route, is answered 401 with the body {"error":"Unauthorized"} and changes nothing when
  its X-API-Key header is absent or differs from the configured key. When the key is
  right the rate limiter is asked before any route is looked at: the client's record
  after the request is the one \<open>checkRateLimit\<close> leaves; a client over its quota
  gets 429 whatever the route, and a client within it has the request counted (count 1
  in a new window, one more in a running one).
\<close>

theorem handleRequest_auth_then_rate_limit:
  "req_method req \<noteq> ''OPTIONS'' \<longrightarrow>
     (x_api_key req \<noteq> Some (apiKey srv) \<longrightarrow>
        handleRequest exec now stamp srv req =
          (respond 401 (Some (Obj [(''error'', Str ''Unauthorized'')])), srv))
   \<and> (x_api_key req = Some (apiKey srv) \<longrightarrow>
        requestCounts (snd (handleRequest exec now stamp srv req)) =
          snd (checkRateLimit (rateLimitPerMinute srv) now (requestCounts srv) (clientIp req))
      \<and> (\<not> fst (checkRateLimit (rateLimitPerMinute srv) now (requestCounts srv) (clientIp req)) \<longrightarrow>
            handleRequest exec now stamp srv req =
              (respond 429 (Some (Obj [(''error'', Str ''Rate limit exceeded'')])), srv))
      \<and> (fst (checkRateLimit (rateLimitPerMinute srv) now (requestCounts srv) (clientIp req)) \<longrightarrow>
            requestCounts (snd (handleRequest exec now stamp srv req)) (clientIp req) =
              Some (case requestCounts srv (clientIp req) of
                      None \<Rightarrow> \<lparr>count = 1, resetTime = now + 60000\<rparr>
                    | Some r \<Rightarrow> if resetTime r < now then \<lparr>count = 1, resetTime = now + 60000\<rparr>
                               else r\<lparr>count := count r + 1\<rparr>)))"
  using handleRequest_unauthorized [of req srv exec now stamp]
    handleRequest_counts [of req srv exec now stamp]
    handleRequest_denied [of req srv now exec stamp]
    checkRateLimit_allowed_counts [of "rateLimitPerMinute srv" now "requestCounts srv" "clientIp req"]
  by (intro impI conjI) simp_all

theorem handleRequest_auth_then_rate_limit_witness:
  "handleRequest (\<lambda>m p w. (Inr Null, w)) 1000 ''2025-01-01T00:00:00.000Z'' demo_server
     \<lparr>req_method = ''GET'', req_url = ''/health'', x_api_key = None,
      remoteAddress = Some ''10.0.0.7'', body_json = None\<rparr>
   = (respond 401 (Some (Obj [(''error'', Str ''Unauthorized'')])), demo_server)
   \<and> requestCounts (snd (handleRequest (\<lambda>m p w. (Inr Null, w)) 1000 ''2025-01-01T00:00:00.000Z''
        demo_server
        \<lparr>req_method = ''GET'', req_url = ''/health'', x_api_key = Some ''secret'',
         remoteAddress = Some ''10.0.0.7'', body_json = None\<rparr>)) ''10.0.0.7''
     = Some \<lparr>count = 1, resetTime = 61000\<rparr>
   \<and> handleRequest (\<lambda>m p w. (Inr Null, w)) 1000 ''2025-01-01T00:00:00.000Z''
        (demo_server\<lparr>requestCounts := [''10.0.0.7'' \<mapsto> \<lparr>count = 60, resetTime = 61000\<rparr>]\<rparr>)
        \<lparr>req_method = ''GET'', req_url = ''/health'', x_api_key = Some ''secret'',
         remoteAddress = Some ''10.0.0.7'', body_json = None\<rparr>
     = (respond 429 (Some (Obj [(''error'', Str ''Rate limit exceeded'')])),
        demo_server\<lparr>requestCounts := [''10.0.0.7'' \<mapsto> \<lparr>count = 60, resetTime = 61000\<rparr>]\<rparr>)"
  using handleRequest_auth_then_rate_limit [where exec = "\<lambda>m p w. (Inr Null, w)" and now = 1000
      and stamp = "''2025-01-01T00:00:00.000Z''" and srv = demo_server
      and req = "\<lparr>req_method = ''GET'', req_url = ''/health'', x_api_key = None,
                remoteAddress = Some ''10.0.0.7'', body_json = None\<rparr>"]
    handleRequest_auth_then_rate_limit [where exec = "\<lambda>m p w. (Inr Null, w)" and now = 1000
      and stamp = "''2025-01-01T00:00:00.000Z''" and srv = demo_server
      and req = "\<lparr>req_method = ''GET'', req_url = ''/health'', x_api_key = Some ''secret'',
                remoteAddress = Some ''10.0.0.7'', body_json = None\<rparr>"]
    handleRequest_auth_then_rate_limit [where exec = "\<lambda>m p w. (Inr Null, w)" and now = 1000
      and stamp = "''2025-01-01T00:00:00.000Z''"
      and srv = "demo_server\<lparr>requestCounts := [''10.0.0.7'' \<mapsto> \<lparr>count = 60, resetTime = 61000\<rparr>]\<rparr>"
      and req = "\<lparr>req_method = ''GET'', req_url = ''/health'', x_api_key = Some ''secret'',
                remoteAddress = Some ''10.0.0.7'', body_json = None\<rparr>"]
  by (simp add: demo_server_def clientIp_def checkRateLimit_def)

lemma handle_rpc_notification:
  assumes "map_of kvs ''method'' = Some m" "truthy m" "map_of kvs ''id'' = None"
  shows "handle_rpc exec w (Obj kvs) =
     (respond 200 None,
      snd (exec m (js_or (case map_of kvs ''params'' of None \<Rightarrow> Undefined | Some p \<Rightarrow> p) (Obj [])) w))"
  using assms by (simp add: handle_rpc_def split: prod.splits sum.splits)

text \<open>
  Claim C5. A request that reaches the RPC route with a method and no id member is a
  notification: the handler runs (the world after the request is the one it leaves),
  and the response is 200 with no body, whether the handler returned or threw.
\<close>

theorem notification_gets_empty_response:
  assumes "req_method req = ''POST''" and "req_url req = ''/rpc''"
    and "x_api_key req = Some (apiKey srv)"
    and "fst (checkRateLimit (rateLimitPerMinute srv) now (requestCounts srv) (clientIp req))"
    and "body_json req = Some (Obj kvs)"
    and "map_of kvs ''method'' = Some m" and "truthy m" and "map_of kvs ''id'' = None"
  shows "fst (handleRequest exec now stamp srv req) = respond 200 None
       \<and> world (snd (handleRequest exec now stamp srv req)) =
           snd (exec m (js_or (case map_of kvs ''params'' of None \<Rightarrow> Undefined | Some p \<Rightarrow> p)
                          (Obj [])) (world srv))"
proof -
  obtain rc where rl: "checkRateLimit (rateLimitPerMinute srv) now (requestCounts srv) (clientIp req) = (True, rc)"
    using assms(4) by (cases "checkRateLimit (rateLimitPerMinute srv) now (requestCounts srv) (clientIp req)") auto
  show ?thesis
    using assms(1,2,3,5) rl handle_rpc_notification [OF assms(6,7,8), of exec "world srv"]
    by (simp add: handleRequest_def Let_def)
qed

theorem notification_gets_empty_response_witness:
  "fst (handleRequest (\<lambda>m p w. (Inl ''Heading not found: Tasks'', w)) 1000 ''2025-01-01T00:00:00.000Z''
          demo_server
          \<lparr>req_method = ''POST'', req_url = ''/rpc'', x_api_key = Some ''secret'',
           remoteAddress = Some ''10.0.0.7'',
           body_json = Some (Obj [(''jsonrpc'', Str ''2.0''), (''method'', Str ''patch_content'')])\<rparr>)
     = respond 200 None
   \<and> fst (handleRequest (\<lambda>m p w. (Inr (Str ''done''), Suc w)) 1000 ''2025-01-01T00:00:00.000Z''
          \<lparr>apiKey = ''secret'', rateLimitPerMinute = 60, requestCounts = Map.empty,
           manifest_version = ''1.0.0'', vault_name = ''notes'', world = 0\<rparr>
          \<lparr>req_method = ''POST'', req_url = ''/rpc'', x_api_key = Some ''secret'',
           remoteAddress = Some ''10.0.0.7'',
           body_json = Some (Obj [(''jsonrpc'', Str ''2.0''), (''method'', Str ''append_content'')])\<rparr>)
     = respond 200 None
   \<and> world (snd (handleRequest (\<lambda>m p w. (Inr (Str ''done''), Suc w)) 1000 ''2025-01-01T00:00:00.000Z''
          \<lparr>apiKey = ''secret'', rateLimitPerMinute = 60, requestCounts = Map.empty,
           manifest_version = ''1.0.0'', vault_name = ''notes'', world = 0\<rparr>
          \<lparr>req_method = ''POST'', req_url = ''/rpc'', x_api_key = Some ''secret'',
           remoteAddress = Some ''10.0.0.7'',
           body_json = Some (Obj [(''jsonrpc'', Str ''2.0''), (''method'', Str ''append_content'')])\<rparr>))
     = Suc 0"
  using notification_gets_empty_response [where exec = "\<lambda>m p w. (Inl ''Heading not found: Tasks'', w)"
      and now = 1000 and stamp = "''2025-01-01T00:00:00.000Z''" and srv = demo_server
      and kvs = "[(''jsonrpc'', Str ''2.0''), (''method'', Str ''patch_content'')]"
      and m = "Str ''patch_content''"
      and req = "\<lparr>req_method = ''POST'', req_url = ''/rpc'', x_api_key = Some ''secret'',
           remoteAddress = Some ''10.0.0.7'',
           body_json = Some (Obj [(''jsonrpc'', Str ''2.0''), (''method'', Str ''patch_content'')])\<rparr>"]
    notification_gets_empty_response [where exec = "\<lambda>m p w. (Inr (Str ''done''), Suc w)"
      and now = 1000 and stamp = "''2025-01-01T00:00:00.000Z''"
      and srv = "\<lparr>apiKey = ''secret'', rateLimitPerMinute = 60, requestCounts = Map.empty,
           manifest_version = ''1.0.0'', vault_name = ''notes'', world = 0\<rparr>"
      and kvs = "[(''jsonrpc'', Str ''2.0''), (''method'', Str ''append_content'')]"
      and m = "Str ''append_content''"
      and req = "\<lparr>req_method = ''POST'', req_url = ''/rpc'', x_api_key = Some ''secret'',
           remoteAddress = Some ''10.0.0.7'',
           body_json = Some (Obj [(''jsonrpc'', Str ''2.0''), (''method'', Str ''append_content'')])\<rparr>"]
  by (simp add: demo_server_def clientIp_def checkRateLimit_def)

text \<open>
  Claim C7, evaluated on the code. A body without a method is answered 400 with the
  error -32600, but the id is \<open>request.id || null\<close>: the id 0 and the empty
  string come back as null, an id 7 comes back as 7.
\<close>

theorem invalid_request_drops_falsy_id:
  "fst (handleRequest exec 1000 stamp demo_server
          \<lparr>req_method = ''POST'', req_url = ''/rpc'', x_api_key = Some ''secret'',
           remoteAddress = Some ''10.0.0.7'',
           body_json = Some (Obj [(''jsonrpc'', Str ''2.0''), (''id'', Num (Fin 0))])\<rparr>)
     = respond 400 (Some (rpc_error (- 32600) ''Invalid request - missing method'' Null))
   \<and> fst (handleRequest exec 1000 stamp demo_server
          \<lparr>req_method = ''POST'', req_url = ''/rpc'', x_api_key = Some ''secret'',
           remoteAddress = Some ''10.0.0.7'',
           body_json = Some (Obj [(''jsonrpc'', Str ''2.0''), (''id'', Str [])])\<rparr>)
     = respond 400 (Some (rpc_error (- 32600) ''Invalid request - missing method'' Null))
   \<and> fst (handleRequest exec 1000 stamp demo_server
          \<lparr>req_method = ''POST'', req_url = ''/rpc'', x_api_key = Some ''secret'',
           remoteAddress = Some ''10.0.0.7'',
           body_json = Some (Obj [(''jsonrpc'', Str ''2.0''), (''id'', Num (Fin 7))])\<rparr>)
     = respond 400 (Some (rpc_error (- 32600) ''Invalid request - missing method'' (Num (Fin 7))))"
  by (simp add: handleRequest_def handle_rpc_def demo_server_def clientIp_def checkRateLimit_def js_or_def)

theorem invalid_request_drops_falsy_id_witness:
  "fst (handleRequest (\<lambda>m p w. (Inr Null, w)) 1000 ''2025-01-01T00:00:00.000Z'' demo_server
          \<lparr>req_method = ''POST'', req_url = ''/rpc'', x_api_key = Some ''secret'',
           remoteAddress = Some ''10.0.0.7'',
           body_json = Some (Obj [(''jsonrpc'', Str ''2.0''), (''id'', Num (Fin 0))])\<rparr>)
     = respond 400 (Some (rpc_error (- 32600) ''Invalid request - missing method'' Null))"
  using invalid_request_drops_falsy_id [of "\<lambda>m p w. (Inr Null, w)" "''2025-01-01T00:00:00.000Z''"]
  by simp

section \<open>Properties of the search\<close>

lemma first_occurrence_None:
  "first_occurrence q s = None \<Longrightarrow> k \<le> length s \<Longrightarrow> \<not> occurs_at q s k"
proof (induction s arbitrary: k)
  case Nil
  then show ?case by (auto simp: occurs_at_def split: if_splits)
next
  case (Cons c cs)
  from Cons.prems(1) have ne: "take (length q) (c # cs) \<noteq> q" and r: "first_occurrence q cs = None"
    by (auto split: if_splits)
  show ?case
  proof (cases k)
    case 0
    with ne show ?thesis by (simp add: occurs_at_def)
  next
    case (Suc j)
    with Cons.prems(2) Cons.IH [OF r, of j] show ?thesis by (simp add: occurs_at_def)
  qed
qed

lemma first_occurrence_Some:
  "first_occurrence q s = Some k \<Longrightarrow>
   k \<le> length s \<and> occurs_at q s k \<and> (\<forall>j<k. \<not> occurs_at q s j)"
proof (induction s arbitrary: k)
  case Nil
  then show ?case by (auto simp: occurs_at_def split: if_splits)
next
  case (Cons c cs)
  show ?case
  proof (cases "take (length q) (c # cs) = q")
    case True
    with Cons.prems show ?thesis by (simp add: occurs_at_def)
  next
    case False
    with Cons.prems obtain k' where k: "k = Suc k'" and r: "first_occurrence q cs = Some k'"
      by auto
    from Cons.IH [OF r] have ih: "k' \<le> length cs" "occurs_at q cs k'" "\<forall>j<k'. \<not> occurs_at q cs j"
      by auto
    have "\<not> occurs_at q (c # cs) j" if "j < k" for j
    proof (cases j)
      case 0
      with False show ?thesis by (simp add: occurs_at_def)
    next
      case (Suc i)
      with that k ih(3) show ?thesis by (simp add: occurs_at_def)
    qed
    with k ih show ?thesis by (simp add: occurs_at_def)
  qed
qed

lemma occurs_at_drop: "occurs_at q (drop p s) k = occurs_at q s (p + k)"
  by (simp add: occurs_at_def add.commute)

lemma indexOf_none:
  assumes "p \<le> length s" and "indexOf s q (int p) = - 1"
  shows "\<forall>k. p \<le> k \<and> k \<le> length s \<longrightarrow> \<not> occurs_at q s k"
proof (intro allI impI)
  fix k assume k: "p \<le> k \<and> k \<le> length s"
  from assms have "first_occurrence q (drop p s) = None"
    by (auto simp: indexOf_def split: option.splits)
  moreover have "k - p \<le> length (drop p s)" and "p + (k - p) = k" using k by auto
  ultimately show "\<not> occurs_at q s k"
    using first_occurrence_None [of q "drop p s" "k - p"] by (simp add: occurs_at_drop)
qed

lemma indexOf_some:
  assumes "p \<le> length s" and "indexOf s q (int p) \<noteq> - 1"
  shows "\<exists>k. indexOf s q (int p) = int k \<and> p \<le> k \<and> k \<le> length s \<and> occurs_at q s k
           \<and> (\<forall>j. p \<le> j \<and> j < k \<longrightarrow> \<not> occurs_at q s j)"
proof -
  from assms obtain k' where f: "first_occurrence q (drop p s) = Some k'"
    and i: "indexOf s q (int p) = int (p + k')"
    by (auto simp: indexOf_def split: option.splits)
  from first_occurrence_Some [OF f]
  have a: "k' \<le> length s - p" "occurs_at q s (p + k')" "\<forall>j<k'. \<not> occurs_at q s (p + j)"
    by (auto simp: occurs_at_drop)
  have "\<not> occurs_at q s j" if "p \<le> j \<and> j < p + k'" for j
  proof -
    from that have "j - p < k'" and "p + (j - p) = j" by auto
    with a(3) show ?thesis by metis
  qed
  with a i assms(1) show ?thesis by (intro exI [of _ "p + k'"]) auto
qed

lemma filter_upt_none:
  "(\<forall>k. p \<le> k \<and> k < n \<longrightarrow> \<not> P k) \<Longrightarrow> filter P [p..<n] = []"
  by (simp add: filter_empty_conv)

lemma filter_upt_first:
  assumes "p \<le> k" "k < n" "P k" "\<forall>j. p \<le> j \<and> j < k \<longrightarrow> \<not> P j"
  shows "filter P [p..<n] = k # filter P [Suc k..<n]"
proof -
  have "[p..<n] = [p..<k] @ k # [Suc k..<n]"
    using assms(1,2) by (metis le_add_diff_inverse less_imp_le_nat upt_add_eq_append upt_conv_Cons)
  moreover have "filter P [p..<k] = []"
    using assms(4) by (simp add: filter_empty_conv)
  ultimately show ?thesis using assms(3) by simp
qed

lemma occurs_at_inside:
  "q \<noteq> [] \<Longrightarrow> occurs_at q s k \<Longrightarrow> k < length s"
  by (cases "k < length s") (auto simp: occurs_at_def)

lemma search_loop_collects:
  assumes "lq \<noteq> []" and "p \<le> length lc"
  shows "search_loop path doc lc q lq cl (indexOf lc lq (int p)) results =
     Some (results @ map (result_at path doc q cl) (filter (occurs_at lq lc) [p..<Suc (length lc)]))"
  using assms(2)
proof (induction "Suc (length lc) - p" arbitrary: p results rule: less_induct)
  case less
  show ?case
  proof (cases "indexOf lc lq (int p) = - 1")
    case True
    from indexOf_none [OF less.prems True]
    have "filter (occurs_at lq lc) [p..<Suc (length lc)] = []"
      by (intro filter_upt_none) auto
    with True show ?thesis by (subst search_loop.simps) simp
  next
    case False
    from indexOf_some [OF less.prems False] obtain k where k:
      "indexOf lc lq (int p) = int k" "p \<le> k" "k \<le> length lc" "occurs_at lq lc k"
      "\<forall>j. p \<le> j \<and> j < k \<longrightarrow> \<not> occurs_at lq lc j"
      by blast
    have kl: "k < length lc" using occurs_at_inside [OF assms(1) k(4)] .
    have f: "filter (occurs_at lq lc) [p..<Suc (length lc)]
           = k # filter (occurs_at lq lc) [Suc k..<Suc (length lc)]"
      using k kl by (intro filter_upt_first) auto
    have ih: "search_loop path doc lc q lq cl (indexOf lc lq (int (Suc k)))
                (results @ [result_at path doc q cl k]) =
              Some ((results @ [result_at path doc q cl k]) @
                    map (result_at path doc q cl)
                      (filter (occurs_at lq lc) [Suc k..<Suc (length lc)]))"
      using k(2) kl by (intro less.hyps) auto
    have "search_loop path doc lc q lq cl (int k) results =
          search_loop path doc lc q lq cl (indexOf lc lq (int (Suc k)))
                (results @ [result_at path doc q cl k])"
      by (subst search_loop.simps) (simp add: Let_def result_at_def add.commute)
    with ih f k(1) show ?thesis by simp
  qed
qed

lemma search_files_collects:
  assumes "q \<noteq> []"
  shows "search_files files q cl results =
     Some (results @ concat (map (\<lambda>(path, doc).
        map (result_at path doc q cl) (occurrences (toLowerCase q) (toLowerCase doc))) files))"
proof (induction files arbitrary: results)
  case Nil
  show ?case by simp
next
  case (Cons pc files)
  obtain path doc where pc: "pc = (path, doc)" by (cases pc)
  have lq: "toLowerCase q \<noteq> []" using assms by (simp add: toLowerCase_def)
  from search_loop_collects [OF lq, of 0 "toLowerCase doc" path doc q cl results]
  show ?case
    by (simp add: pc Cons.IH Let_def occurrences_def)
qed

text \<open>
  For a query that is not empty the loop ends, and the results are, file after file, one
  per index at which the lower-cased query occurs in the lower-cased text, in ascending
  order, each with the path, the index and the window cut from the text itself.
\<close>

lemma simpleSearch_nonempty_query:
  assumes "query \<noteq> []"
  shows "simpleSearch files query contextLength =
     Some (concat (map (\<lambda>(path, doc).
        map (result_at path doc query (case contextLength of None \<Rightarrow> 100 | Some n \<Rightarrow> n))
          (occurrences (toLowerCase query) (toLowerCase doc))) files))"
  using search_files_collects [OF assms, of files _ "[]"]
  by (simp add: simpleSearch_def)

lemma take_drop_clamped:
  "take (min (length s) b - min (length s) a) (drop (min (length s) a) s) = take (b - a) (drop a s)"
proof (cases "a < length s")
  case True
  then have "min (length s) a = a" by simp
  moreover have "take (min (length s) b - a) (drop a s) = take (b - a) (drop a s)"
  proof (cases "b \<le> length s")
    case True
    then show ?thesis by (simp add: min_absorb2)
  next
    case False
    then show ?thesis by (simp add: min_absorb1)
  qed
  ultimately show ?thesis by simp
next
  case False
  then show ?thesis by simp
qed

text \<open>
  With a context length that is not negative the window is the text from
  \<open>contextLength\<close> units before the match to \<open>contextLength\<close> units after it,
  clipped at both ends of the text.
\<close>

lemma substring_window:
  assumes "0 \<le> cl"
  shows "substring doc (max 0 (int k - cl)) (min (int (length doc)) (int k + int n + cl))
       = drop (k - nat cl) (take (k + n + nat cl) doc)"
proof -
  have lo: "nat (min (max (max 0 (int k - cl)) 0) (int (length doc)))
        = min (length doc) (k - nat cl)"
    using assms by auto
  have hi: "nat (min (max (min (int (length doc)) (int k + int n + cl)) 0) (int (length doc)))
        = min (length doc) (k + n + nat cl)"
    using assms by auto
  have le: "min (length doc) (k - nat cl) \<le> min (length doc) (k + n + nat cl)"
    by auto
  have "substring doc (max 0 (int k - cl)) (min (int (length doc)) (int k + int n + cl))
      = take (min (length doc) (k + n + nat cl) - min (length doc) (k - nat cl))
          (drop (min (length doc) (k - nat cl)) doc)"
    unfolding substring_def Let_def lo hi using le by (simp add: min_absorb1 max_absorb2)
  also have "\<dots> = take (k + n + nat cl - (k - nat cl)) (drop (k - nat cl) doc)"
    by (rule take_drop_clamped)
  also have "\<dots> = drop (k - nat cl) (take (k + n + nat cl) doc)"
    by (simp add: drop_take)
  finally show ?thesis .
qed

lemma toLowerCase_example: "toLowerCase ''Cat cat scatter'' = ''cat cat scatter''"
  by code_simp

lemma toLowerCase_query_example: "toLowerCase ''cat'' = ''cat''"
  by code_simp

lemma occurrences_example: "occurrences ''cat'' ''cat cat scatter'' = [0, 4, 9]"
  by (simp add: occurrences_def occurs_at_def upt_rec_numeral)

lemma simpleSearch_example:
  "simpleSearch [(''pets.md'', ''Cat cat scatter'')] ''cat'' (Some 2) =
     Some [\<lparr>sr_file = ''pets.md'', sr_match = ''Cat c'', sr_position = 0\<rparr>,
           \<lparr>sr_file = ''pets.md'', sr_match = ''t cat s'', sr_position = 4\<rparr>,
           \<lparr>sr_file = ''pets.md'', sr_match = '' scatte'', sr_position = 9\<rparr>]"
  by (simp add: simpleSearch_nonempty_query toLowerCase_example toLowerCase_query_example
      occurrences_example result_at_def substring_def)

lemma first_occurrence_empty: "first_occurrence [] s = Some 0"
  by (cases s) simp_all

lemma indexOf_empty_nonneg: "0 \<le> indexOf s [] p"
  by (simp add: indexOf_def first_occurrence_empty)

lemma search_loop_empty_query_diverges:
  assumes a: "search_loop path doc lc q lq cl index results = Some r"
  shows "lq \<noteq> [] \<or> index < 0"
proof (rule search_loop.raw_induct
    [where P = "\<lambda>p c l q' lq' n i rs r'. lq' \<noteq> [] \<or> i < 0", OF _ a])
  fix f :: "string \<Rightarrow> string \<Rightarrow> string \<Rightarrow> string \<Rightarrow> string \<Rightarrow> int \<Rightarrow> int \<Rightarrow>
      search_result list \<Rightarrow> search_result list option"
  fix p c l q' lq' :: string and n i :: int and rs r' :: "search_result list"
  assume IH: "\<And>p c l q' lq' n i rs r'. f p c l q' lq' n i rs = Some r' \<Longrightarrow> lq' \<noteq> [] \<or> i < 0"
  assume step: "(if i \<noteq> - 1
      then let start = max 0 (i - n);
               end' = min (int (length c)) (i + int (length q') + n);
               ctx = substring c start end'
           in f p c l q' lq' n (indexOf l lq' (i + 1))
               (rs @ [\<lparr>sr_file = p, sr_match = ctx, sr_position = i\<rparr>])
      else Some rs) = Some r'"
  show "lq' \<noteq> [] \<or> i < 0"
  proof (rule ccontr)
    assume "\<not> (lq' \<noteq> [] \<or> i < 0)"
    then have e: "lq' = []" and nn: "0 \<le> i" by auto
    from nn have "i \<noteq> - 1" by simp
    with step have "f p c l q' lq' n (indexOf l lq' (i + 1))
        (rs @ [\<lparr>sr_file = p,
                 sr_match = substring c (max 0 (i - n)) (min (int (length c)) (i + int (length q') + n)),
                 sr_position = i\<rparr>]) = Some r'"
      by (simp add: Let_def)
    from IH [OF this] e indexOf_empty_nonneg [of l "i + 1"] show False by auto
  qed
qed

lemma search_files_empty_query:
  "files \<noteq> [] \<Longrightarrow> search_files files [] cl results = None"
proof (cases files)
  case Nil
  then show "files \<noteq> [] \<Longrightarrow> ?thesis" by simp
next
  case (Cons pc fs)
  obtain p c where pc: "pc = (p, c)" by (cases pc)
  have "search_loop p c (toLowerCase c) [] (toLowerCase []) cl
          (indexOf (toLowerCase c) (toLowerCase []) 0) results = None"
  proof (cases "search_loop p c (toLowerCase c) [] (toLowerCase []) cl
          (indexOf (toLowerCase c) (toLowerCase []) 0) results")
    case None
    then show ?thesis .
  next
    case (Some r)
    from search_loop_empty_query_diverges [OF Some]
      indexOf_empty_nonneg [of "toLowerCase c" 0]
    show ?thesis by (simp add: toLowerCase_def)
  qed
  then show ?thesis
    using Cons pc by (simp add: Let_def)
qed

text \<open>
  Claim C8, evaluated on the code. With the empty query and at least one markdown file
  the loop of \<open>simpleSearch\<close> never ends: \<open>indexOf\<close> of the empty string clamps its
  start to the length of the text, so the index is never -1 and a result is pushed in
  every round. No list of results is returned.
\<close>

theorem simpleSearch_empty_query_never_returns:
  "simpleSearch ((path, doc) # files) [] contextLength = None"
  using search_files_empty_query [of "(path, doc) # files"]
  by (simp add: simpleSearch_def)

theorem simpleSearch_empty_query_never_returns_witness:
  "simpleSearch [(''pets.md'', ''Cat cat scatter'')] [] (Some 2) = None"
  using simpleSearch_empty_query_never_returns [of "''pets.md''" "''Cat cat scatter''" "[]" "Some 2"]
  by simp

section \<open>Properties of the patch engine\<close>

lemma first_some_SomeD:
  "first_some f xs = Some y \<Longrightarrow> \<exists>x\<in>set xs. f x = Some y"
  by (induction xs) (auto split: option.splits)











lemmas regex_eval = regex_match_def blockRegex_def headingRegex_def nextHeadingRegex_def regex_plain_def
  regex_syntax_chars_def lit_def candidates_def prev_after_def is_space_def is_line_terminator_def


lemma tasks_note_section:
  "headingRegex ''Tasks'' = Some ([Bol, Rep (Lit (CHR ''#'')) 1 (Some 6) True, Rep Space 1 None True]
      @ lit ''Tasks'' @ [Rep Space 0 None True, Eol])"
  "heading_section ([Bol, Rep (Lit (CHR ''#'')) 1 (Some 6) True, Rep Space 1 None True]
      @ lit ''Tasks'' @ [Rep Space 0 None True, Eol]) tasks_note = Some (7, 12)"
  by (simp_all add: heading_section_def tasks_note_def regex_eval substring_from_def substring_def)






section \<open>Properties of the frontmatter mutators\<close>

lemma get_member_update: "get_member (AList.update k v obj) k = v"
  by (simp add: get_member_def update_conv')


lemma get_path_update_Obj:
  "keys \<noteq> [] \<Longrightarrow> get_path (AList.update key (Obj sub) obj) (key # keys) = get_path sub keys"
  by (cases keys) (simp_all add: get_member_update)











section \<open>The matcher finds exactly the matches\<close>

lemma first_some_None_iff:
  "first_some f xs = None \<longleftrightarrow> (\<forall>x\<in>set xs. f x = None)"
  by (induction xs) (auto split: option.splits)


lemma le_takeWhile_iff:
  "k \<le> length (takeWhile P s) \<longleftrightarrow> k \<le> length s \<and> list_all P (take k s)"
proof (induction s arbitrary: k)
  case Nil
  then show ?case by simp
next
  case (Cons x xs)
  show ?case
  proof (cases k)
    case 0
    then show ?thesis by simp
  next
    case (Suc j)
    with Cons.IH [of j] show ?thesis by auto
  qed
qed

lemma set_candidates:
  "k \<in> set (candidates c lo hi g s) \<longleftrightarrow>
     lo \<le> k \<and> (case hi of None \<Rightarrow> True | Some h \<Rightarrow> k \<le> h) \<and> k \<le> length s
     \<and> list_all (in_cls c) (take k s)"
proof -
  have "k \<in> set (candidates c lo hi g s) \<longleftrightarrow>
     lo \<le> k \<and> (case hi of None \<Rightarrow> True | Some h \<Rightarrow> k \<le> h) \<and> k \<le> length (takeWhile (in_cls c) s)"
    by (auto simp: candidates_def Let_def split: option.splits)
  then show ?thesis by (simp add: le_takeWhile_iff)
qed

lemma match_here_sound:
  "match_here ns prev s = Some ks \<Longrightarrow> matches ns prev s ks"
proof (induction ns arbitrary: prev s ks)
  case Nil
  then show ?case by simp
next
  case (Cons n ns)
  show ?case
  proof (cases n)
    case Bol
    with Cons show ?thesis by (auto split: if_splits)
  next
    case Eol
    with Cons show ?thesis by (auto split: if_splits)
  next
    case (Rep c lo hi g)
    with Cons.prems have "first_some
           (\<lambda>k. map_option (Cons k) (match_here ns (prev_after prev s k) (drop k s)))
           (candidates c lo hi g s) = Some ks"
      by simp
    from first_some_SomeD [OF this] obtain k ks' where k: "k \<in> set (candidates c lo hi g s)"
      and r: "match_here ns (prev_after prev s k) (drop k s) = Some ks'" and ks: "ks = k # ks'"
      by auto
    from Cons.IH [OF r] k ks Rep show ?thesis by (simp add: set_candidates)
  qed
qed

lemma match_here_complete:
  "matches ns prev s ks \<Longrightarrow> match_here ns prev s \<noteq> None"
proof (induction ns arbitrary: prev s ks)
  case Nil
  then show ?case by simp
next
  case (Cons n ns)
  from Cons.prems obtain k ks' where ks: "ks = k # ks'" by (cases ks) auto
  show ?case
  proof (cases n)
    case Bol
    with Cons ks show ?thesis by auto
  next
    case Eol
    with Cons ks show ?thesis by auto
  next
    case (Rep c lo hi g)
    with Cons.prems ks have k: "k \<in> set (candidates c lo hi g s)"
      and r: "matches ns (prev_after prev s k) (drop k s) ks'"
      by (simp_all add: set_candidates)
    from Cons.IH [OF r] have "map_option (Cons k) (match_here ns (prev_after prev s k) (drop k s)) \<noteq> None"
      by simp
    with k have "first_some
           (\<lambda>k. map_option (Cons k) (match_here ns (prev_after prev s k) (drop k s)))
           (candidates c lo hi g s) \<noteq> None"
      by (auto simp: first_some_None_iff)
    with Rep show ?thesis by simp
  qed
qed

lemma match_here_None_iff:
  "match_here ns prev s = None \<longleftrightarrow> (\<forall>ks. \<not> matches ns prev s ks)"
  using match_here_sound match_here_complete by (metis not_Some_eq)

lemma match_from_spec:
  "match_from ns prev s i0 = Some (i, ks) \<longleftrightarrow>
     (\<exists>j. i = i0 + j \<and> j \<le> length s
          \<and> match_here ns (prev_after prev s j) (drop j s) = Some ks
          \<and> (\<forall>j'<j. match_here ns (prev_after prev s j') (drop j' s) = None))"
proof (induction s arbitrary: prev i0)
  case Nil
  then show ?case by (auto simp: prev_after_def)
next
  case (Cons c cs)
  show ?case
  proof (cases "match_here ns prev (c # cs)")
    case (Some ks')
    have "(\<exists>j. i = i0 + j \<and> j \<le> length (c # cs)
          \<and> match_here ns (prev_after prev (c # cs) j) (drop j (c # cs)) = Some ks
          \<and> (\<forall>j'<j. match_here ns (prev_after prev (c # cs) j') (drop j' (c # cs)) = None))
        \<longleftrightarrow> (i = i0 \<and> ks = ks')"
    proof
      assume "\<exists>j. i = i0 + j \<and> j \<le> length (c # cs)
          \<and> match_here ns (prev_after prev (c # cs) j) (drop j (c # cs)) = Some ks
          \<and> (\<forall>j'<j. match_here ns (prev_after prev (c # cs) j') (drop j' (c # cs)) = None)"
      then obtain j where j: "i = i0 + j"
        "match_here ns (prev_after prev (c # cs) j) (drop j (c # cs)) = Some ks"
        "\<forall>j'<j. match_here ns (prev_after prev (c # cs) j') (drop j' (c # cs)) = None"
        by blast
      have "j = 0"
      proof (rule ccontr)
        assume "j \<noteq> 0"
        with j(3) have "match_here ns (prev_after prev (c # cs) 0) (drop 0 (c # cs)) = None" by blast
        with Some show False by (simp add: prev_after_def)
      qed
      with j Some show "i = i0 \<and> ks = ks'" by (simp add: prev_after_def)
    next
      assume "i = i0 \<and> ks = ks'"
      with Some show "\<exists>j. i = i0 + j \<and> j \<le> length (c # cs)
          \<and> match_here ns (prev_after prev (c # cs) j) (drop j (c # cs)) = Some ks
          \<and> (\<forall>j'<j. match_here ns (prev_after prev (c # cs) j') (drop j' (c # cs)) = None)"
        by (intro exI [of _ 0]) (simp add: prev_after_def)
    qed
    with Some show ?thesis by auto
  next
    case None
    have shift: "prev_after prev (c # cs) (Suc j) = prev_after (Some c) cs j" for j
      by (cases j) (simp_all add: prev_after_def)
    have "(\<exists>j. i = i0 + j \<and> j \<le> length (c # cs)
          \<and> match_here ns (prev_after prev (c # cs) j) (drop j (c # cs)) = Some ks
          \<and> (\<forall>j'<j. match_here ns (prev_after prev (c # cs) j') (drop j' (c # cs)) = None))
        \<longleftrightarrow> (\<exists>j. i = Suc i0 + j \<and> j \<le> length cs
          \<and> match_here ns (prev_after (Some c) cs j) (drop j cs) = Some ks
          \<and> (\<forall>j'<j. match_here ns (prev_after (Some c) cs j') (drop j' cs) = None))"
      (is "?L \<longleftrightarrow> ?R")
    proof
      assume ?L
      then obtain j where j: "i = i0 + j" "j \<le> length (c # cs)"
        "match_here ns (prev_after prev (c # cs) j) (drop j (c # cs)) = Some ks"
        "\<forall>j'<j. match_here ns (prev_after prev (c # cs) j') (drop j' (c # cs)) = None"
        by blast
      from j(3) None obtain j0 where j0: "j = Suc j0"
        by (cases j) (auto simp: prev_after_def)
      have "\<forall>j'<j0. match_here ns (prev_after (Some c) cs j') (drop j' cs) = None"
      proof (intro allI impI)
        fix j' assume "j' < j0"
        with j(4) j0 have "match_here ns (prev_after prev (c # cs) (Suc j')) (drop (Suc j') (c # cs)) = None"
          by blast
        then show "match_here ns (prev_after (Some c) cs j') (drop j' cs) = None"
          by (simp add: shift)
      qed
      with j j0 show ?R by (intro exI [of _ j0]) (simp add: shift)
    next
      assume ?R
      then obtain j where j: "i = Suc i0 + j" "j \<le> length cs"
        "match_here ns (prev_after (Some c) cs j) (drop j cs) = Some ks"
        "\<forall>j'<j. match_here ns (prev_after (Some c) cs j') (drop j' cs) = None"
        by blast
      have "\<forall>j'<Suc j. match_here ns (prev_after prev (c # cs) j') (drop j' (c # cs)) = None"
      proof (intro allI impI)
        fix j' assume a: "j' < Suc j"
        show "match_here ns (prev_after prev (c # cs) j') (drop j' (c # cs)) = None"
        proof (cases j')
          case 0
          with None show ?thesis by (simp add: prev_after_def)
        next
          case (Suc j'')
          with a j(4) show ?thesis by (simp add: shift)
        qed
      qed
      with j show ?L by (intro exI [of _ "Suc j"]) (simp add: shift)
    qed
    with None Cons.IH [of "Some c" "Suc i0"] show ?thesis by simp
  qed
qed

lemma regex_match_Some_iff:
  "regex_match ns s = Some (i, ks) \<longleftrightarrow>
     i \<le> length s \<and> match_here ns (prev_after None s i) (drop i s) = Some ks
     \<and> (\<forall>j<i. match_here ns (prev_after None s j) (drop j s) = None)"
  unfolding regex_match_def match_from_spec by auto

lemma match_from_None_iff:
  "match_from ns prev s i0 = None \<longleftrightarrow>
     (\<forall>j\<le>length s. match_here ns (prev_after prev s j) (drop j s) = None)"
proof (induction s arbitrary: prev i0)
  case Nil
  then show ?case by (simp add: prev_after_def)
next
  case (Cons c cs)
  have shift: "prev_after prev (c # cs) (Suc j) = prev_after (Some c) cs j" for j
    by (cases j) (simp_all add: prev_after_def)
  show ?case
  proof (cases "match_here ns prev (c # cs)")
    case (Some ks')
    then have "match_here ns (prev_after prev (c # cs) 0) (drop 0 (c # cs)) \<noteq> None"
      by (simp add: prev_after_def)
    with Some show ?thesis by auto
  next
    case None
    have "(\<forall>j\<le>length (c # cs). match_here ns (prev_after prev (c # cs) j) (drop j (c # cs)) = None)
        \<longleftrightarrow> (\<forall>j\<le>length cs. match_here ns (prev_after (Some c) cs j) (drop j cs) = None)"
      (is "?L \<longleftrightarrow> ?R")
    proof
      assume l: ?L
      show ?R
      proof (intro allI impI)
        fix j assume "j \<le> length cs"
        with l have "match_here ns (prev_after prev (c # cs) (Suc j)) (drop (Suc j) (c # cs)) = None"
          by (metis Suc_le_mono length_Cons)
        then show "match_here ns (prev_after (Some c) cs j) (drop j cs) = None"
          by (simp add: shift)
      qed
    next
      assume r: ?R
      show ?L
      proof (intro allI impI)
        fix j assume a: "j \<le> length (c # cs)"
        show "match_here ns (prev_after prev (c # cs) j) (drop j (c # cs)) = None"
        proof (cases j)
          case 0
          with None show ?thesis by (simp add: prev_after_def)
        next
          case (Suc j')
          with a r show ?thesis by (simp add: shift)
        qed
      qed
    qed
    with None Cons.IH [of "Some c" "Suc i0"] show ?thesis by simp
  qed
qed

lemma regex_match_None_iff:
  "regex_match ns s = None \<longleftrightarrow>
     (\<forall>j\<le>length s. \<forall>ks. \<not> matches ns (prev_after None s j) (drop j s) ks)"
  unfolding regex_match_def match_from_None_iff match_here_None_iff ..

lemma first_some_single: "first_some f [x] = f x"
  by (cases "f x") simp_all


lemma match_here_Rep:
  "match_here (Rep c lo hi g # ns) prev s =
     first_some (\<lambda>k. map_option (Cons k) (match_here ns (prev_after prev s k) (drop k s)))
       (candidates c lo hi g s)"
  by simp



declare match_here.simps(2) [simp del]

lemma match_here_char:
  "match_here (Rep (Lit c) 1 (Some 1) True # ns) prev s =
     (case s of [] \<Rightarrow> None
      | x # s' \<Rightarrow> if x = c then map_option (Cons 1) (match_here ns (Some x) s') else None)"
proof (cases s)
  case Nil
  then show ?thesis by (simp add: match_here_Rep candidates_def)
next
  case (Cons x s')
  show ?thesis
  proof (cases "x = c")
    case True
    then have "candidates (Lit c) 1 (Some 1) True (x # s') = [1]"
      by (simp add: candidates_def Let_def min_def)
    with True Cons show ?thesis
      by (simp only: match_here_Rep first_some_single) (simp add: prev_after_def)
  next
    case False
    then have "candidates (Lit c) 1 (Some 1) True (x # s') = []"
      by (simp add: candidates_def Let_def)
    with False Cons show ?thesis by (simp only: match_here_Rep) simp
  qed
qed

lemma lit_Cons: "lit (c # t) = Rep (Lit c) 1 (Some 1) True # lit t"
  by (simp add: lit_def)


lemma match_here_lit_mismatch:
  "take (length t) s \<noteq> t \<Longrightarrow> match_here (lit t @ ns) prev s = None"
proof (induction t arbitrary: prev s)
  case Nil
  then show ?case by simp
next
  case (Cons c t)
  show ?case
  proof (cases s)
    case Nil
    then show ?thesis unfolding lit_Cons append_Cons match_here_char by simp
  next
    case (Cons x s')
    with Cons.prems Cons.IH [of s' "Some x"] show ?thesis
      unfolding lit_Cons append_Cons match_here_char by auto
  qed
qed



lemma rev_upt_Suc: "rev [0..<Suc n] = n # rev [0..<n]"
  by simp



section \<open>Block patches on a block line\<close>

lemma matches_Rep:
  "matches (Rep c lo hi g # ns) prev s ks \<longleftrightarrow>
     (\<exists>k ks'. ks = k # ks' \<and> lo \<le> k \<and> (case hi of None \<Rightarrow> True | Some h \<Rightarrow> k \<le> h)
        \<and> k \<le> length s \<and> list_all (in_cls c) (take k s)
        \<and> matches ns (prev_after prev s k) (drop k s) ks')"
  by (cases ks) simp_all











section \<open>Heading lines and block lines are what the patterns find\<close>

lemma matches_Bol:
  "matches (Bol # ns) prev s ks \<longleftrightarrow>
     (\<exists>ks'. ks = 0 # ks' \<and> (case prev of None \<Rightarrow> True | Some c \<Rightarrow> is_line_terminator c)
        \<and> matches ns prev s ks')"
  by (cases ks) auto

lemma matches_Eol:
  "matches (Eol # ns) prev s ks \<longleftrightarrow>
     (\<exists>ks'. ks = 0 # ks' \<and> (case s of [] \<Rightarrow> True | c # _ \<Rightarrow> is_line_terminator c)
        \<and> matches ns prev s ks')"
  by (cases ks) auto

lemma matches_lit:
  "matches (lit t @ ns) prev s ks \<longleftrightarrow>
     (\<exists>ks'. ks = replicate (length t) 1 @ ks' \<and> take (length t) s = t \<and> length t \<le> length s
        \<and> matches ns (prev_after prev s (length t)) (drop (length t) s) ks')"
proof (induction t arbitrary: prev s ks)
  case Nil
  show ?case by (simp add: lit_def prev_after_def)
next
  case (Cons c t)
  have p: "prev_after (prev_after prev s 1) (drop 1 s) (length t) = prev_after prev s (Suc (length t))"
    if "s \<noteq> []" for s :: string
    using that by (cases s; cases t) (simp_all add: prev_after_def)
  show ?case (is "?L \<longleftrightarrow> ?R")
  proof
    assume ?L
    then obtain k r where ks: "ks = k # r" and k: "1 \<le> k" "k \<le> 1" "k \<le> length s"
      "list_all (in_cls (Lit c)) (take k s)"
      and m: "matches (lit t @ ns) (prev_after prev s k) (drop k s) r"
      unfolding lit_Cons append_Cons matches_Rep by auto
    from k(1,2) have k1: "k = 1" by simp
    with k(3) obtain x xs where s: "s = x # xs" by (cases s) auto
    with k(4) k1 have x: "x = c" by simp
    from m [unfolded Cons.IH] k1 obtain ks' where r: "r = replicate (length t) 1 @ ks'"
      and t: "take (length t) (drop 1 s) = t" "length t \<le> length (drop 1 s)"
      and m': "matches ns (prev_after (prev_after prev s 1) (drop 1 s) (length t))
                 (drop (length t) (drop 1 s)) ks'"
      by auto
    from m' s have "matches ns (prev_after prev s (Suc (length t))) (drop (Suc (length t)) s) ks'"
      using p [of s] by simp
    with ks k1 r t s x show ?R by (intro exI [of _ ks']) simp
  next
    assume ?R
    then obtain ks' where ks: "ks = replicate (length (c # t)) 1 @ ks'"
      and t: "take (length (c # t)) s = c # t" "length (c # t) \<le> length s"
      and m: "matches ns (prev_after prev s (length (c # t))) (drop (length (c # t)) s) ks'"
      by blast
    from t obtain xs where s: "s = c # xs" and xs: "take (length t) xs = t" "length t \<le> length xs"
      by (cases s) auto
    have "matches (lit t @ ns) (prev_after prev s 1) (drop 1 s) (replicate (length t) 1 @ ks')"
      unfolding Cons.IH using m s xs p [of s] by simp
    with ks s show ?L
      unfolding lit_Cons append_Cons matches_Rep by simp
  qed
qed

lemma regex_match_found_at:
  "j \<le> length s \<Longrightarrow> matches ns (prev_after None s j) (drop j s) ks \<Longrightarrow> regex_match ns s \<noteq> None"
  using regex_match_None_iff by blast

lemma regex_match_matches:
  "regex_match ns s = Some (i, ks) \<Longrightarrow>
   i \<le> length s \<and> matches ns (prev_after None s i) (drop i s) ks"
  by (simp add: regex_match_Some_iff match_here_sound)

lemma prev_after_end: "prev_after None (pre @ s) (length pre) = (case rev pre of [] \<Rightarrow> None | c # _ \<Rightarrow> Some c)"
  by (cases pre rule: rev_cases) (simp_all add: prev_after_def nth_append)

lemma prev_after_take:
  "i \<le> length s \<Longrightarrow> prev_after None s i = (case rev (take i s) of [] \<Rightarrow> None | c # _ \<Rightarrow> Some c)"
  using prev_after_end [of "take i s" "drop i s"] by simp

lemma list_all_Lit: "list_all (in_cls (Lit c)) xs \<longleftrightarrow> xs = replicate (length xs) c"
  by (induction xs) auto

lemma heading_occurs_found:
  assumes "heading_occurs t D"
  shows "regex_match ([Bol, Rep (Lit (CHR ''#'')) 1 (Some 6) True, Rep Space 1 None True]
                      @ lit t @ [Rep Space 0 None True, Eol]) D \<noteq> None"
proof -
  from assms obtain pre h w1 w2 post where
    D: "D = pre @ replicate h (CHR ''#'') @ w1 @ t @ w2 @ post"
    and pre: "case rev pre of [] \<Rightarrow> True | c # _ \<Rightarrow> is_line_terminator c"
    and h: "1 \<le> h" "h \<le> 6" and w1: "w1 \<noteq> []" "list_all is_space w1"
    and w2: "list_all is_space w2"
    and post: "case post of [] \<Rightarrow> True | c # _ \<Rightarrow> is_line_terminator c"
    unfolding heading_occurs_def by blast
  let ?s = "replicate h (CHR ''#'') @ w1 @ t @ w2 @ post"
  let ?p = "prev_after None D (length pre)"
  have p: "case ?p of None \<Rightarrow> True | Some c \<Rightarrow> is_line_terminator c"
    unfolding D prev_after_end using pre by (cases "rev pre") simp_all
  have m4: "matches [Rep Space 0 None True, Eol] q (w2 @ post) [length w2, 0]" for q
    using w2 post by (simp add: in_cls.simps [abs_def])
  have m3: "matches (lit t @ [Rep Space 0 None True, Eol]) q (t @ w2 @ post)
              (replicate (length t) 1 @ [length w2, 0])" for q
    unfolding matches_lit using m4 by simp
  have m2: "matches (Rep Space 1 None True # lit t @ [Rep Space 0 None True, Eol]) q
              (w1 @ t @ w2 @ post) (length w1 # replicate (length t) 1 @ [length w2, 0])" for q
    unfolding matches_Rep using m3 w1 by (simp add: in_cls.simps [abs_def] Suc_le_eq)
  have m1: "matches (Rep (Lit (CHR ''#'')) 1 (Some 6) True # Rep Space 1 None True
                     # lit t @ [Rep Space 0 None True, Eol]) q ?s
              (h # length w1 # replicate (length t) 1 @ [length w2, 0])" for q
    unfolding matches_Rep [of "Lit (CHR ''#'')"] using m2 h by (simp add: list_all_Lit)
  have "matches ([Bol, Rep (Lit (CHR ''#'')) 1 (Some 6) True, Rep Space 1 None True]
                      @ lit t @ [Rep Space 0 None True, Eol]) ?p (drop (length pre) D)
          (0 # h # length w1 # replicate (length t) 1 @ [length w2, 0])"
    using m1 p by (simp add: D matches_Bol)
  moreover have "length pre \<le> length D" by (simp add: D)
  ultimately show ?thesis by (rule regex_match_found_at [rotated])
qed

lemma heading_found_occurs:
  assumes "regex_match ([Bol, Rep (Lit (CHR ''#'')) 1 (Some 6) True, Rep Space 1 None True]
                      @ lit t @ [Rep Space 0 None True, Eol]) D = Some (i, ks)"
  shows "heading_occurs t D"
proof -
  let ?s = "drop i D"
  from regex_match_matches [OF assms] have i: "i \<le> length D"
    and m: "matches ([Bol, Rep (Lit (CHR ''#'')) 1 (Some 6) True, Rep Space 1 None True]
                      @ lit t @ [Rep Space 0 None True, Eol]) (prev_after None D i) ?s ks"
    by auto
  from m obtain r0 where p: "case prev_after None D i of None \<Rightarrow> True | Some c \<Rightarrow> is_line_terminator c"
    and m0: "matches (Rep (Lit (CHR ''#'')) 1 (Some 6) True # Rep Space 1 None True
                     # lit t @ [Rep Space 0 None True, Eol]) (prev_after None D i) ?s r0"
    unfolding append_Cons append_Nil matches_Bol by blast
  from m0 obtain h r1 where h: "1 \<le> h" "h \<le> 6" "h \<le> length ?s"
      "list_all (in_cls (Lit (CHR ''#''))) (take h ?s)"
    and m1: "matches (Rep Space 1 None True # lit t @ [Rep Space 0 None True, Eol])
               (prev_after (prev_after None D i) ?s h) (drop h ?s) r1"
    unfolding matches_Rep [of "Lit (CHR ''#'')"] by auto
  define s1 where "s1 = drop h ?s"
  from m1 obtain k1 r2 where k1: "1 \<le> k1" "k1 \<le> length s1" "list_all (in_cls Space) (take k1 s1)"
    and m2: "matches (lit t @ [Rep Space 0 None True, Eol])
               (prev_after (prev_after (prev_after None D i) ?s h) s1 k1) (drop k1 s1) r2"
    unfolding matches_Rep [of Space] s1_def by auto
  define s2 where "s2 = drop k1 s1"
  from m2 obtain r3 q where t: "take (length t) s2 = t" "length t \<le> length s2"
    and m3: "matches [Rep Space 0 None True, Eol] q (drop (length t) s2) r3"
    unfolding matches_lit s2_def by blast
  define s3 where "s3 = drop (length t) s2"
  from m3 obtain k2 r4 q' where k2: "k2 \<le> length s3" "list_all (in_cls Space) (take k2 s3)"
    and m4: "matches [Eol] q' (drop k2 s3) r4"
    unfolding matches_Rep [of Space] s3_def by auto
  from m4 have e: "case drop k2 s3 of [] \<Rightarrow> True | c # _ \<Rightarrow> is_line_terminator c"
    unfolding matches_Eol by blast
  have "D = take i D @ ?s" by simp
  also have "?s = take h ?s @ s1" by (simp only: s1_def append_take_drop_id)
  also have "s1 = take k1 s1 @ s2" by (simp only: s2_def append_take_drop_id)
  also have "s2 = take (length t) s2 @ s3" by (simp only: s3_def append_take_drop_id)
  also have "s3 = take k2 s3 @ drop k2 s3" by (simp only: append_take_drop_id)
  finally have D: "D = take i D @ replicate h (CHR ''#'') @ take k1 s1 @ t @ take k2 s3 @ drop k2 s3"
    using h(3,4) t(1) by (simp add: list_all_Lit min_absorb2)
  have pre: "case rev (take i D) of [] \<Rightarrow> True | c # _ \<Rightarrow> is_line_terminator c"
  proof (cases "rev (take i D)")
    case Nil
    then show ?thesis by (simp only: list.case)
  next
    case (Cons c cs)
    with p show ?thesis unfolding prev_after_take [OF i] by (simp only: list.case option.case)
  qed
  have w1: "take k1 s1 \<noteq> []" using k1(1,2) by (cases s1) auto
  show ?thesis
    unfolding heading_occurs_def
    apply (rule exI [of _ "take i D"], rule exI [of _ h], rule exI [of _ "take k1 s1"])
    apply (rule exI [of _ "take k2 s3"], rule exI [of _ "drop k2 s3"])
    using D pre h(1,2) w1 k1(3) k2(2) e
    by (simp add: in_cls.simps [abs_def])
qed

lemma heading_found_iff:
  "regex_plain t \<Longrightarrow> headingRegex t = Some re \<Longrightarrow>
   regex_match re D \<noteq> None \<longleftrightarrow> heading_occurs t D"
  using heading_occurs_found [of t D] heading_found_occurs [of t D]
  by (auto simp: headingRegex_def)




lemma heading_section_found_iff:
  "regex_plain t \<Longrightarrow> headingRegex t = Some re \<Longrightarrow>
   heading_section re D \<noteq> None \<longleftrightarrow> heading_occurs t D"
  using heading_found_iff [of t re D]
  by (auto simp: heading_section_def Let_def split: option.splits)


lemma tasks_note_occurrence: "heading_occurs ''Tasks'' tasks_note"
  using heading_section_found_iff [OF _ tasks_note_section(1), of tasks_note] tasks_note_section(2)
  by (simp add: regex_plain_def regex_syntax_chars_def)

section \<open>Finding the section again after a replace\<close>






lemma rev_upt_from_1: "1 \<le> n \<Longrightarrow> rev [1..<Suc n] = n # rev [1..<n]"
  by simp








section \<open>Heading patches\<close>






section \<open>Patches whose target is missing\<close>




section \<open>Block patches on a block line: the claim\<close>




end
